theory Spec2Isabelle
  imports Complex_Main "HOL-Library.Multiset"
begin

section \<open>JavaScript values\<close>

text \<open>
  A JavaScript number is a binary64 float. The model keeps the special values apart and
  takes the finite values as exact reals: rounding and the sign of zero are not modelled
  (the two zeros are one value, as \<open>===\<close> and the \<open>Set\<close> type see them). Nothing below
  depends on how a finite result is rounded.
\<close>

datatype jsnum = NaN | PosInf | NegInf | Fin real

text \<open>
  The element type \<open>T\<close> of \<open>Queryable<T>\<close> is unconstrained, so an element is any
  JavaScript value, \<open>undefined\<close> and \<open>null\<close> included. An object is its reference: two
  objects are the same value only when they are the same object. With one zero and one
  \<open>NaN\<close>, equality of this type is the comparison \<open>SameValueZero\<close> that \<open>Set\<close> uses.
\<close>

datatype jsval = Undefined | Null | Bool bool | Num jsnum | Str string | Ref nat

section \<open>The store\<close>

text \<open>
  Arrays and \<open>Queryable\<close> instances are objects in a store and are handled by reference.
  An array holds its elements (arrays are dense: holes are not modelled), a \<open>Queryable\<close>
  holds the reference in its private field \<open>collection\<close>. Addresses below
  \<open>next_addr\<close> are the allocated ones.
\<close>

type_synonym addr = nat

record heap =
  arrays :: "addr \<Rightarrow> jsval list"
  queryables :: "addr \<Rightarrow> addr"
  next_addr :: addr

text \<open>An array literal or an array-returning built-in: a new array object.\<close>

definition new_array :: "jsval list \<Rightarrow> heap \<Rightarrow> addr \<times> heap" where
  "new_array xs h =
     (next_addr h, h\<lparr>arrays := (arrays h)(next_addr h := xs), next_addr := Suc (next_addr h)\<rparr>)"

text \<open>\<^verbatim>\<open>constructor(collection: T[]) { this.collection = collection; }\<close>: the
  reference is stored, the array is not copied.\<close>

definition new_Queryable :: "addr \<Rightarrow> heap \<Rightarrow> addr \<times> heap" where
  "new_Queryable collection h =
     (next_addr h,
      h\<lparr>queryables := (queryables h)(next_addr h := collection), next_addr := Suc (next_addr h)\<rparr>)"

text \<open>\<^verbatim>\<open>this.collection\<close>, and the elements it holds at the moment.\<close>

definition collection :: "heap \<Rightarrow> addr \<Rightarrow> addr" where
  "collection h this = queryables h this"

definition elems :: "heap \<Rightarrow> addr \<Rightarrow> jsval list" where
  "elems h this = arrays h (collection h this)"

text \<open>\<^verbatim>\<open>toArray(): T[] { return this.collection; }\<close>: the backing array itself.\<close>

definition toArray :: "addr \<Rightarrow> heap \<Rightarrow> addr" where
  "toArray this h = collection h this"

text \<open>What a caller sees of a returned wrapper: the elements of its \<open>toArray()\<close>.\<close>

definition result_elems :: "addr \<times> heap \<Rightarrow> jsval list" where
  "result_elems r = arrays (snd r) (toArray (fst r) (snd r))"

section \<open>Projection and filtering\<close>

text \<open>
  Selectors and predicates are pure functions of the element, as the specification's data
  model has them. \<open>Array.prototype.map\<close> and \<open>Array.prototype.filter\<close> build a new array.
\<close>

definition select :: "(jsval \<Rightarrow> jsval) \<Rightarrow> addr \<Rightarrow> heap \<Rightarrow> addr \<times> heap" where
  "select selector this h =
     (let (a, h1) = new_array (map selector (elems h this)) h in new_Queryable a h1)"

definition where_q :: "(jsval \<Rightarrow> bool) \<Rightarrow> addr \<Rightarrow> heap \<Rightarrow> addr \<times> heap" where
  "where_q predicate this h =
     (let (a, h1) = new_array (filter predicate (elems h this)) h in new_Queryable a h1)"

section \<open>Partitioning: take and skip\<close>

text \<open>
  \<open>Array.prototype.slice(start, end)\<close> converts each argument with
  \<open>ToIntegerOrInfinity\<close> (\<open>NaN\<close> becomes 0, a fraction is truncated towards zero), counts a
  negative index from the end of the array, and clamps the two positions to the array. A
  missing \<open>end\<close> is the length.
\<close>

datatype int_inf = MinusInf | Finite int | PlusInf

fun ToIntegerOrInfinity :: "jsnum \<Rightarrow> int_inf" where
  "ToIntegerOrInfinity NaN = Finite 0"
| "ToIntegerOrInfinity PosInf = PlusInf"
| "ToIntegerOrInfinity NegInf = MinusInf"
| "ToIntegerOrInfinity (Fin r) = Finite (if r < 0 then \<lceil>r\<rceil> else \<lfloor>r\<rfloor>)"

fun relative_index :: "int_inf \<Rightarrow> nat \<Rightarrow> nat" where
  "relative_index MinusInf len = 0"
| "relative_index (Finite i) len =
     (if i < 0 then nat (max (int len + i) 0) else nat (min i (int len)))"
| "relative_index PlusInf len = len"

definition slice :: "jsnum \<Rightarrow> jsnum option \<Rightarrow> jsval list \<Rightarrow> jsval list" where
  "slice start end xs =
     (let len = length xs;
          k = relative_index (ToIntegerOrInfinity start) len;
          final = (case end of None \<Rightarrow> len
                   | Some e \<Rightarrow> relative_index (ToIntegerOrInfinity e) len)
      in List.take (final - k) (drop k xs))"

definition take_q :: "jsnum \<Rightarrow> addr \<Rightarrow> heap \<Rightarrow> addr \<times> heap" where
  "take_q count' this h =
     (let (a, h1) = new_array (slice (Fin 0) (Some count') (elems h this)) h
      in new_Queryable a h1)"

definition skip :: "jsnum \<Rightarrow> addr \<Rightarrow> heap \<Rightarrow> addr \<times> heap" where
  "skip count' this h =
     (let (a, h1) = new_array (slice count' None (elems h this)) h in new_Queryable a h1)"

section \<open>Ordering\<close>

text \<open>
  \<open>Array.prototype.sort(comparefn)\<close> sorts the array it is called on in place and returns
  that same array. The language requires the sort to be stable, moves every \<open>undefined\<close>
  element to the end without passing it to \<open>comparefn\<close>, and fixes the order of the other
  elements whenever \<open>comparefn\<close> is a consistent comparator. For a consistent comparator a
  stable sort has one possible result, so a stable insertion sort stands for the built-in:
  an element goes in front of the first element it does not compare greater than.
\<close>

fun insert_by :: "('a \<Rightarrow> 'a \<Rightarrow> int) \<Rightarrow> 'a \<Rightarrow> 'a list \<Rightarrow> 'a list" where
  "insert_by comparefn x [] = [x]"
| "insert_by comparefn x (y # ys) =
     (if comparefn x y \<le> 0 then x # y # ys else y # insert_by comparefn x ys)"

definition sort_by :: "('a \<Rightarrow> 'a \<Rightarrow> int) \<Rightarrow> 'a list \<Rightarrow> 'a list" where
  "sort_by comparefn xs = foldr (insert_by comparefn) xs []"

definition array_sort :: "(jsval \<Rightarrow> jsval \<Rightarrow> int) \<Rightarrow> jsval list \<Rightarrow> jsval list" where
  "array_sort comparefn xs =
     sort_by comparefn (filter (\<lambda>x. x \<noteq> Undefined) xs) @ filter (\<lambda>x. x = Undefined) xs"

definition sort_in_place :: "(jsval \<Rightarrow> jsval \<Rightarrow> int) \<Rightarrow> addr \<Rightarrow> heap \<Rightarrow> addr \<times> heap" where
  "sort_in_place comparefn a h = (a, h\<lparr>arrays := (arrays h)(a := array_sort comparefn (arrays h a))\<rparr>)"

text \<open>
  The key type \<open>U\<close> is compared with \<open><\<close> and \<open>>\<close>; the keys are taken from a linearly
  ordered type, which is what strings and the numbers other than \<open>NaN\<close> are under these
  operators. \<open>[...this.collection]\<close> is a new array with the same elements; it is the copy
  that is sorted.
\<close>

definition orderBy :: "(jsval \<Rightarrow> 'k::linorder) \<Rightarrow> addr \<Rightarrow> heap \<Rightarrow> addr \<times> heap" where
  "orderBy keySelector this h =
     (let (c, h1) = new_array (elems h this) h;
          (s, h2) = sort_in_place
             (\<lambda>a b. let keyA = keySelector a; keyB = keySelector b
                    in if keyA < keyB then - 1 else if keyA > keyB then 1 else 0) c h1
      in new_Queryable s h2)"

definition orderByDescending :: "(jsval \<Rightarrow> 'k::linorder) \<Rightarrow> addr \<Rightarrow> heap \<Rightarrow> addr \<times> heap" where
  "orderByDescending keySelector this h =
     (let (c, h1) = new_array (elems h this) h;
          (s, h2) = sort_in_place
             (\<lambda>a b. let keyA = keySelector a; keyB = keySelector b
                    in if keyA > keyB then - 1 else if keyA < keyB then 1 else 0) c h1
      in new_Queryable s h2)"

section \<open>Grouping\<close>

text \<open>
  The groups are the own properties of an object created by \<open>{}\<close>, kept here in the order
  they were added. A property name is a string: a number key is used through its string
  form, and the key selector of the model returns that property name. Reading
  \<open>groups[key]\<close> finds an own property, or else a property inherited from
  \<open>Object.prototype\<close>, or else \<open>undefined\<close>. The inherited values are functions (and,
  for \<open>__proto__\<close>, the prototype object): they are truthy and have no \<open>push\<close> method, so
  calling \<open>push\<close> on one throws a \<open>TypeError\<close>. Each group's array is reachable from the
  groups object only, and is kept by value.
\<close>

datatype js_error = TypeError

datatype property = Own "jsval list" | Inherited | Absent

type_synonym groups = "(string \<times> jsval list) list"

definition Object_prototype :: "string list" where
  "Object_prototype =
     [''constructor'', ''hasOwnProperty'', ''isPrototypeOf'', ''propertyIsEnumerable'',
      ''toLocaleString'', ''toString'', ''valueOf'', ''__proto__'', ''__defineGetter__'',
      ''__defineSetter__'', ''__lookupGetter__'', ''__lookupSetter__'']"

definition get_prop :: "groups \<Rightarrow> string \<Rightarrow> property" where
  "get_prop groups key =
     (case map_of groups key of
        Some items \<Rightarrow> Own items
      | None \<Rightarrow> if key \<in> set Object_prototype then Inherited else Absent)"

fun set_prop :: "groups \<Rightarrow> string \<Rightarrow> jsval list \<Rightarrow> groups" where
  "set_prop [] key v = [(key, v)]"
| "set_prop ((k, w) # ps) key v =
     (if k = key then (k, v) # ps else (k, w) # set_prop ps key v)"

text \<open>The body of the reducer, and \<open>reduce\<close> from the empty object; a throw ends the loop.
  Of the values that \<open>groups[key]\<close> can have, only \<open>undefined\<close> is falsy.\<close>

definition group_item :: "(jsval \<Rightarrow> string) \<Rightarrow> groups \<Rightarrow> jsval \<Rightarrow> js_error + groups" where
  "group_item keySelector groups item =
     (let key = keySelector item;
          groups1 = (if get_prop groups key = Absent then set_prop groups key [] else groups)
      in case get_prop groups1 key of
           Own items \<Rightarrow> Inr (set_prop groups1 key (items @ [item]))
         | Inherited \<Rightarrow> Inl TypeError
         | Absent \<Rightarrow> Inl TypeError)"

fun reduce_groups :: "(jsval \<Rightarrow> string) \<Rightarrow> groups \<Rightarrow> jsval list \<Rightarrow> js_error + groups" where
  "reduce_groups keySelector groups [] = Inr groups"
| "reduce_groups keySelector groups (item # items) =
     (case group_item keySelector groups item of
        Inl e \<Rightarrow> Inl e
      | Inr groups' \<Rightarrow> reduce_groups keySelector groups' items)"

definition groupBy :: "(jsval \<Rightarrow> string) \<Rightarrow> addr \<Rightarrow> heap \<Rightarrow> js_error + groups" where
  "groupBy keySelector this h = reduce_groups keySelector [] (elems h this)"

section \<open>Distinct\<close>

text \<open>
  The key of an element (without a key selector the element is its own key), and the body
  of the \<open>forEach\<close> callback on the two locals \<open>uniqueKeys\<close> (a \<open>Set\<close>) and
  \<open>distinctItems\<close>. The array \<open>distinctItems\<close> is local until it is wrapped.
\<close>

definition distinct_key :: "(jsval \<Rightarrow> jsval) option \<Rightarrow> jsval \<Rightarrow> jsval" where
  "distinct_key keySelector item = (case keySelector of Some f \<Rightarrow> f item | None \<Rightarrow> item)"

definition distinct_item ::
  "(jsval \<Rightarrow> jsval) option \<Rightarrow> jsval set \<times> jsval list \<Rightarrow> jsval \<Rightarrow> jsval set \<times> jsval list" where
  "distinct_item keySelector st item =
     (let (uniqueKeys, distinctItems) = st;
          key = distinct_key keySelector item
      in if key \<notin> uniqueKeys then (insert key uniqueKeys, distinctItems @ [item]) else st)"

definition distinct_q :: "(jsval \<Rightarrow> jsval) option \<Rightarrow> addr \<Rightarrow> heap \<Rightarrow> addr \<times> heap" where
  "distinct_q keySelector this h =
     (let (uniqueKeys, distinctItems) = foldl (distinct_item keySelector) ({}, []) (elems h this);
          (a, h1) = new_array distinctItems h
      in new_Queryable a h1)"

section \<open>Aggregation\<close>

text \<open>Addition and division of numbers, with the special values of the float arithmetic.\<close>

fun js_add :: "jsnum \<Rightarrow> jsnum \<Rightarrow> jsnum" where
  "js_add NaN b = NaN"
| "js_add a NaN = NaN"
| "js_add PosInf NegInf = NaN"
| "js_add NegInf PosInf = NaN"
| "js_add PosInf b = PosInf"
| "js_add NegInf b = NegInf"
| "js_add a PosInf = PosInf"
| "js_add a NegInf = NegInf"
| "js_add (Fin x) (Fin y) = Fin (x + y)"

fun js_div :: "jsnum \<Rightarrow> jsnum \<Rightarrow> jsnum" where
  "js_div NaN b = NaN"
| "js_div a NaN = NaN"
| "js_div PosInf (Fin y) = (if y < 0 then NegInf else PosInf)"
| "js_div NegInf (Fin y) = (if y < 0 then PosInf else NegInf)"
| "js_div PosInf b = NaN"
| "js_div NegInf b = NaN"
| "js_div (Fin x) (Fin y) =
     (if y = 0 then (if x = 0 then NaN else if 0 < x then PosInf else NegInf)
      else Fin (x / y))"
| "js_div (Fin x) b = Fin 0"

definition sum_q :: "(jsval \<Rightarrow> jsnum) \<Rightarrow> addr \<Rightarrow> heap \<Rightarrow> jsnum" where
  "sum_q selector this h = foldl (\<lambda>acc item. js_add acc (selector item)) (Fin 0) (elems h this)"

definition average :: "(jsval \<Rightarrow> jsnum) \<Rightarrow> addr \<Rightarrow> heap \<Rightarrow> jsnum" where
  "average selector this h =
     (let total = sum_q selector this h
      in js_div total (Fin (real (length (elems h this)))))"

section \<open>Element access\<close>

text \<open>
  \<open>Array.prototype.find\<close> returns the first element the predicate accepts, or
  \<open>undefined\<close>; reading an index outside the array gives \<open>undefined\<close>. An optional
  parameter that is left out is \<open>undefined\<close>: a missing predicate is \<open>None\<close>, and the
  default \<open>null\<close> of \<open>defaultValue\<close> replaces an argument that is \<open>undefined\<close>.
\<close>

fun array_find :: "(jsval \<Rightarrow> bool) \<Rightarrow> jsval list \<Rightarrow> jsval" where
  "array_find predicate [] = Undefined"
| "array_find predicate (x # xs) = (if predicate x then x else array_find predicate xs)"

definition array_get :: "jsval list \<Rightarrow> int \<Rightarrow> jsval" where
  "array_get xs i = (if 0 \<le> i \<and> i < int (length xs) then xs ! nat i else Undefined)"

definition default_param :: "jsval \<Rightarrow> jsval" where
  "default_param defaultValue = (if defaultValue = Undefined then Null else defaultValue)"

definition first :: "(jsval \<Rightarrow> bool) option \<Rightarrow> addr \<Rightarrow> heap \<Rightarrow> jsval" where
  "first predicate this h =
     (case predicate of
        Some p \<Rightarrow> array_find p (elems h this)
      | None \<Rightarrow> array_get (elems h this) 0)"

definition firstOrDefault :: "(jsval \<Rightarrow> bool) option \<Rightarrow> jsval \<Rightarrow> addr \<Rightarrow> heap \<Rightarrow> jsval" where
  "firstOrDefault predicate defaultValue this h =
     (let item = (case predicate of
                    Some p \<Rightarrow> array_find p (elems h this)
                  | None \<Rightarrow> array_get (elems h this) 0)
      in if item \<noteq> Undefined then item else default_param defaultValue)"

text \<open>\<open>[...this.collection].reverse()\<close> reverses a temporary copy.\<close>

definition last_q :: "(jsval \<Rightarrow> bool) option \<Rightarrow> addr \<Rightarrow> heap \<Rightarrow> jsval" where
  "last_q predicate this h =
     (case predicate of
        Some p \<Rightarrow> array_find p (rev (elems h this))
      | None \<Rightarrow> array_get (elems h this) (int (length (elems h this)) - 1))"

definition lastOrDefault :: "(jsval \<Rightarrow> bool) option \<Rightarrow> jsval \<Rightarrow> addr \<Rightarrow> heap \<Rightarrow> jsval" where
  "lastOrDefault predicate defaultValue this h =
     (let item = (case predicate of
                    Some p \<Rightarrow> array_find p (rev (elems h this))
                  | None \<Rightarrow> array_get (elems h this) (int (length (elems h this)) - 1))
      in if item \<noteq> Undefined then item else default_param defaultValue)"

section \<open>Constructing a wrapper; observations used in the statements\<close>

text \<open>\<open>new Queryable(xs)\<close> in a program that has allocated nothing else, and a method
  called on that wrapper.\<close>

definition empty_heap :: heap where
  "empty_heap = \<lparr>arrays = (\<lambda>a. []), queryables = (\<lambda>a. 0), next_addr = 0\<rparr>"

definition Queryable_of :: "jsval list \<Rightarrow> addr \<times> heap" where
  "Queryable_of xs = (let (a, h1) = new_array xs empty_heap in new_Queryable a h1)"

definition query :: "jsval list \<Rightarrow> (addr \<Rightarrow> heap \<Rightarrow> 'r) \<Rightarrow> 'r" where
  "query xs method = (let (this, h) = Queryable_of xs in method this h)"

text \<open>A wrapper that exists in the store: it and its backing array are allocated.\<close>

definition allocated :: "heap \<Rightarrow> addr \<Rightarrow> bool" where
  "allocated h this = (this < next_addr h \<and> collection h this < next_addr h)"

text \<open>
  What an operator leaves alone and what it returns: every object that was allocated
  before the call is as it was, so \<open>toArray()\<close> of the original wrapper is the same array
  with the same elements; the returned wrapper and its backing array are objects that did
  not exist before the call.
\<close>

definition unchanged_and_fresh :: "addr \<Rightarrow> heap \<Rightarrow> addr \<times> heap \<Rightarrow> bool" where
  "unchanged_and_fresh this h r =
     (let (q, h') = r
      in toArray this h' = toArray this h \<and>
         arrays h' (toArray this h') = arrays h (toArray this h) \<and>
         (\<forall>a < next_addr h. arrays h' a = arrays h a \<and> queryables h' a = queryables h a) \<and>
         next_addr h \<le> q \<and> q < next_addr h' \<and>
         next_addr h \<le> toArray q h' \<and> toArray q h' < next_addr h')"

text \<open>Key selectors of the examples: \<open>x => Number.isFinite(x) ? x : 0\<close>, which is the
  number itself on a finite number and 0 on \<open>undefined\<close>, and
  \<open>x => typeof x === 'string' ? x : ''\<close>.\<close>

fun number_key :: "jsval \<Rightarrow> real" where
  "number_key (Num (Fin r)) = r"
| "number_key v = 0"

fun string_key :: "jsval \<Rightarrow> string" where
  "string_key (Str s) = s"
| "string_key v = []"

text \<open>The selector \<open>x => typeof x === 'number' ? x : NaN\<close>, and the key
  \<open>o => o.k\<close> on the three objects \<open>{k: 1, v: 'a'}\<close>, \<open>{k: 1, v: 'b'}\<close> and
  \<open>{k: 0, v: 'c'}\<close>, which are the references 0, 1 and 2.\<close>

fun the_number :: "jsval \<Rightarrow> jsnum" where
  "the_number (Num n) = n"
| "the_number v = NaN"

text \<open>The key selector \<open>x => x === 'a'\<close>.\<close>

definition is_a :: "jsval \<Rightarrow> jsval" where
  "is_a x = Bool (x = Str ''a'')"

fun k_field :: "jsval \<Rightarrow> nat" where
  "k_field (Ref n) = (if n < 2 then 1 else 0)"
| "k_field v = 0"

section \<open>Properties\<close>

subsection \<open>Wrappers and their elements\<close>

lemma result_elems_wrap:
  "result_elems (case new_array xs h of (a, h1) \<Rightarrow> new_Queryable a h1) = xs"
  by (simp add: result_elems_def toArray_def collection_def new_array_def new_Queryable_def)

lemma elems_Queryable_of: "elems (snd (Queryable_of xs)) (fst (Queryable_of xs)) = xs"
  by (simp add: Queryable_of_def new_array_def new_Queryable_def elems_def collection_def empty_heap_def)

lemma query_eq: "query xs method = method (fst (Queryable_of xs)) (snd (Queryable_of xs))"
  by (simp add: query_def split: prod.splits)

lemma allocated_Queryable_of: "allocated (snd (Queryable_of xs)) (fst (Queryable_of xs))"
  by (simp add: Queryable_of_def new_array_def new_Queryable_def allocated_def collection_def empty_heap_def)

subsection \<open>select and where\<close>

text \<open>
  C9. \<open>where\<close> with the constantly true predicate and \<open>select\<close> with the identity selector
  return a wrapper whose elements are those of the source, one for one, in the same order,
  and so of the same length.
\<close>

theorem C9_identity_where_select:
  "result_elems (where_q (\<lambda>x. True) this h) = elems h this \<and>
   result_elems (select (\<lambda>x. x) this h) = elems h this \<and>
   length (result_elems (where_q (\<lambda>x. True) this h)) = length (elems h this) \<and>
   length (result_elems (select (\<lambda>x. x) this h)) = length (elems h this)"
  by (simp add: where_q_def select_def result_elems_wrap)

subsection \<open>take and skip\<close>

lemma result_elems_take: "result_elems (take_q c this h) = slice (Fin 0) (Some c) (elems h this)"
  by (simp add: take_q_def result_elems_wrap)

lemma result_elems_skip: "result_elems (skip c this h) = slice c None (elems h this)"
  by (simp add: skip_def result_elems_wrap)

lemma slice_take_oversized: "real (length xs) \<le> r \<Longrightarrow> slice (Fin 0) (Some (Fin r)) xs = xs"
proof -
  assume "real (length xs) \<le> r"
  then have "int (length xs) \<le> \<lfloor>r\<rfloor>" "\<not> r < 0"
    by (simp_all add: le_floor_iff)
  then show ?thesis by (simp add: slice_def Let_def min_def)
qed

lemma slice_skip_oversized: "real (length xs) \<le> r \<Longrightarrow> slice (Fin r) None xs = []"
proof -
  assume "real (length xs) \<le> r"
  then have "int (length xs) \<le> \<lfloor>r\<rfloor>" "\<not> r < 0"
    by (simp_all add: le_floor_iff)
  then show ?thesis by (simp add: slice_def Let_def min_def)
qed

lemma slice_take_from_end:
  "r \<le> - 1 \<Longrightarrow> slice (Fin 0) (Some (Fin r)) xs = List.take (nat (int (length xs) + \<lceil>r\<rceil>)) xs"
  by (simp add: slice_def Let_def ceiling_less_iff max_def)

lemma slice_skip_from_end:
  "r \<le> - 1 \<Longrightarrow> slice (Fin r) None xs = drop (nat (int (length xs) + \<lceil>r\<rceil>)) xs"
  by (simp add: slice_def Let_def ceiling_less_iff max_def)

lemma slice_take_zero: "- 1 < r \<Longrightarrow> r \<le> 0 \<Longrightarrow> slice (Fin 0) (Some (Fin r)) xs = []"
  apply (cases "r = 0") apply (simp add: slice_def)
  apply (subgoal_tac "\<lceil>r\<rceil> = 0") apply (simp add: slice_def) 
  by (simp add: ceiling_eq_iff)

lemma slice_skip_zero: "- 1 < r \<Longrightarrow> r \<le> 0 \<Longrightarrow> slice (Fin r) None xs = xs"
  apply (cases "r = 0") apply (simp add: slice_def)
  apply (subgoal_tac "\<lceil>r\<rceil> = 0") apply (simp add: slice_def) 
  by (simp add: ceiling_eq_iff)

lemma slice_inf: "slice (Fin 0) (Some PosInf) xs = xs" "slice PosInf None xs = []"
  "slice (Fin 0) (Some NegInf) xs = []" "slice NegInf None xs = xs"
  by (simp_all add: slice_def)

text \<open>
  What \<open>take\<close> and \<open>skip\<close> return for each count. A count at or above the length gives
  all the elements for \<open>take\<close> and none for \<open>skip\<close>; a count in \<open>(-1, 0]\<close>, and
  \<open>-Infinity\<close>, act as 0. A count \<open>r \<le> -1\<close> is counted from the end by \<open>slice\<close>:
  \<open>take\<close> returns the first \<open>length + \<lceil>r\<rceil>\<close> elements (none when that is negative) and
  \<open>skip\<close> the elements after them. No count raises an error.
\<close>

lemma take_skip_counts:
  "(real (length (elems h this)) \<le> r \<longrightarrow>
      result_elems (take_q (Fin r) this h) = elems h this \<and>
      result_elems (skip (Fin r) this h) = []) \<and>
   result_elems (take_q PosInf this h) = elems h this \<and>
   result_elems (skip PosInf this h) = [] \<and>
   (- 1 < r \<and> r \<le> 0 \<longrightarrow>
      result_elems (take_q (Fin r) this h) = [] \<and>
      result_elems (skip (Fin r) this h) = elems h this) \<and>
   result_elems (take_q NegInf this h) = [] \<and>
   result_elems (skip NegInf this h) = elems h this \<and>
   (r \<le> - 1 \<longrightarrow>
      result_elems (take_q (Fin r) this h) =
        List.take (nat (int (length (elems h this)) + \<lceil>r\<rceil>)) (elems h this) \<and>
      result_elems (skip (Fin r) this h) =
        drop (nat (int (length (elems h this)) + \<lceil>r\<rceil>)) (elems h this))"
  by (simp add: result_elems_take result_elems_skip slice_take_oversized slice_skip_oversized
      slice_take_from_end slice_skip_from_end slice_take_zero slice_skip_zero slice_inf)

lemma take_skip_counts_example:
  "result_elems (query [Num (Fin 1), Num (Fin 2), Num (Fin 3)] (take_q (Fin 5))) =
     [Num (Fin 1), Num (Fin 2), Num (Fin 3)] \<and>
   result_elems (query [Num (Fin 1), Num (Fin 2), Num (Fin 3)] (skip (Fin 5))) = [] \<and>
   result_elems (query [Num (Fin 1), Num (Fin 2), Num (Fin 3)] (take_q (Fin (- 1 / 2)))) = [] \<and>
   result_elems (query [Num (Fin 1), Num (Fin 2), Num (Fin 3)] (skip (Fin (- 1 / 2)))) =
     [Num (Fin 1), Num (Fin 2), Num (Fin 3)] \<and>
   result_elems (query [Num (Fin 1), Num (Fin 2), Num (Fin 3)] (take_q (Fin (- 2)))) =
     [Num (Fin 1)] \<and>
   result_elems (query [Num (Fin 1), Num (Fin 2), Num (Fin 3)] (skip (Fin (- 2)))) =
     [Num (Fin 2), Num (Fin 3)]"
  using take_skip_counts [of "snd (Queryable_of [Num (Fin 1), Num (Fin 2), Num (Fin 3)])"
          "fst (Queryable_of [Num (Fin 1), Num (Fin 2), Num (Fin 3)])" 5]
        take_skip_counts [of "snd (Queryable_of [Num (Fin 1), Num (Fin 2), Num (Fin 3)])"
          "fst (Queryable_of [Num (Fin 1), Num (Fin 2), Num (Fin 3)])" "- 1 / 2"]
        take_skip_counts [of "snd (Queryable_of [Num (Fin 1), Num (Fin 2), Num (Fin 3)])"
          "fst (Queryable_of [Num (Fin 1), Num (Fin 2), Num (Fin 3)])" "- 2"]
  by (simp add: query_eq elems_Queryable_of)

text \<open>
  C1. The claim is that a negative count is clamped to 0, so that \<open>take\<close> returns an
  empty wrapper and \<open>skip\<close> all the elements, as the docstrings' "number of elements to
  return" and "to skip" ask. The negative count reaches \<open>slice\<close> unguarded and is counted
  from the end: on \<open>[1, 2, 3]\<close>, \<open>take(-1)\<close> is \<open>[1, 2]\<close>, not empty, and \<open>skip(-1)\<close> is
  \<open>[3]\<close>, not the whole sequence.
\<close>

theorem C1_take_skip_negative_count:
  "result_elems (query [Num (Fin 1), Num (Fin 2), Num (Fin 3)] (take_q (Fin (- 1)))) =
     [Num (Fin 1), Num (Fin 2)] \<and>
   result_elems (query [Num (Fin 1), Num (Fin 2), Num (Fin 3)] (skip (Fin (- 1)))) =
     [Num (Fin 3)]"
  by (simp add: query_eq result_elems_take result_elems_skip elems_Queryable_of slice_def ceiling_minus)

subsection \<open>first and last\<close>

lemma array_find_none: "\<forall>x\<in>set xs. \<not> p x \<Longrightarrow> array_find p xs = Undefined"
  by (induction xs) auto

lemma array_find_append: "\<forall>x\<in>set pre. \<not> p x \<Longrightarrow> array_find p (pre @ ys) = array_find p ys"
  by (induction pre) auto

lemma array_find_accepts: "array_find p xs \<noteq> Undefined \<Longrightarrow> array_find p xs \<in> set xs \<and> p (array_find p xs)"
  by (induction xs) (auto split: if_splits)

lemma array_find_found: "array_find p xs = Undefined \<Longrightarrow> Undefined \<notin> set xs \<Longrightarrow> \<forall>x\<in>set xs. \<not> p x"
  by (induction xs) (auto split: if_splits)

text \<open>
  C2, as amended. With a predicate, \<open>first\<close> and \<open>last\<close> return \<open>undefined\<close> when the
  sequence is empty or no element satisfies the predicate; they have no failing branch.
  \<open>undefined\<close> is a possible element, so it tells absence only for a sequence that does
  not contain it: for such a sequence, a result of \<open>undefined\<close> means that no element
  satisfies the predicate.
\<close>

theorem C2_first_last_absent:
  "((\<forall>x\<in>set (elems h this). \<not> p x) \<longrightarrow>
      first (Some p) this h = Undefined \<and> last_q (Some p) this h = Undefined) \<and>
   (Undefined \<notin> set (elems h this) \<longrightarrow>
      (first (Some p) this h = Undefined \<longrightarrow> (\<forall>x\<in>set (elems h this). \<not> p x)) \<and>
      (last_q (Some p) this h = Undefined \<longrightarrow> (\<forall>x\<in>set (elems h this). \<not> p x)))"
proof -
  have "\<forall>x\<in>set (elems h this). \<not> p x" if "last_q (Some p) this h = Undefined" "Undefined \<notin> set (elems h this)"
    using that array_find_found [of p "rev (elems h this)"] by (simp add: last_q_def)
  moreover have "\<forall>x\<in>set (elems h this). \<not> p x" if "first (Some p) this h = Undefined" "Undefined \<notin> set (elems h this)"
    using that array_find_found [of p "elems h this"] by (simp add: first_def)
  moreover have "first (Some p) this h = Undefined \<and> last_q (Some p) this h = Undefined"
    if "\<forall>x\<in>set (elems h this). \<not> p x"
    using that by (simp add: first_def last_q_def array_find_none)
  ultimately show ?thesis by blast
qed

text \<open>On \<open>[undefined]\<close> with the predicate \<open>x => x === undefined\<close> the element matches,
  and both operators return \<open>undefined\<close>.\<close>

theorem C2_undefined_element_counterexample:
  "query [Undefined] (first (Some ((=) Undefined))) = Undefined \<and>
   query [Undefined] (last_q (Some ((=) Undefined))) = Undefined \<and>
   Undefined \<in> set [Undefined] \<and> list_ex ((=) Undefined) [Undefined]"
  by (simp add: query_eq first_def last_q_def elems_Queryable_of)

theorem C2_first_last_absent_witness:
  "query [Num (Fin 1), Num (Fin 2)] (first (Some ((=) (Num (Fin 3))))) = Undefined \<and>
   query [Num (Fin 1), Num (Fin 2)] (last_q (Some ((=) (Num (Fin 3))))) = Undefined \<and>
   query [] (first (Some ((=) (Num (Fin 3))))) = Undefined \<and>
   query [] (last_q (Some ((=) (Num (Fin 3))))) = Undefined \<and>
   Undefined \<notin> set [Num (Fin 1), Num (Fin 2)] \<and>
   \<not> list_ex ((=) (Num (Fin 3))) [Num (Fin 1), Num (Fin 2)]"
  using C2_first_last_absent [of "snd (Queryable_of [Num (Fin 1), Num (Fin 2)])"
          "fst (Queryable_of [Num (Fin 1), Num (Fin 2)])" "(=) (Num (Fin 3))"]
        C2_first_last_absent [of "snd (Queryable_of [])" "fst (Queryable_of [])" "(=) (Num (Fin 3))"]
  by (simp add: query_eq elems_Queryable_of)

text \<open>
  C10. When the first element that satisfies the predicate is an \<open>undefined\<close> element,
  \<open>firstOrDefault\<close> returns the default value and not the match, and likewise
  \<open>lastOrDefault\<close> when the last such element is \<open>undefined\<close>. The default value is the
  argument supplied, \<open>null\<close> standing in for an argument that is left out or is
  \<open>undefined\<close>.
\<close>

theorem C10_undefined_match_gives_default:
  "(elems h this = pre @ Undefined # post \<and> (\<forall>x\<in>set pre. \<not> p x) \<and> p Undefined \<longrightarrow>
      firstOrDefault (Some p) d this h = default_param d) \<and>
   (elems h this = pre @ Undefined # post \<and> (\<forall>x\<in>set post. \<not> p x) \<and> p Undefined \<longrightarrow>
      lastOrDefault (Some p) d this h = default_param d) \<and>
   (d \<noteq> Undefined \<longrightarrow> default_param d = d)"
  by (simp add: firstOrDefault_def lastOrDefault_def array_find_append default_param_def)

theorem C10_undefined_match_gives_default_witness:
  "query [Num (Fin 1), Undefined, Num (Fin 2)] (firstOrDefault (Some ((=) Undefined)) (Num (Fin 7))) = Num (Fin 7) \<and>
   query [Num (Fin 1), Undefined, Num (Fin 2)] (lastOrDefault (Some ((=) Undefined)) (Num (Fin 7))) = Num (Fin 7)"
  using C10_undefined_match_gives_default [of "snd (Queryable_of [Num (Fin 1), Undefined, Num (Fin 2)])"
          "fst (Queryable_of [Num (Fin 1), Undefined, Num (Fin 2)])" "[Num (Fin 1)]" "[Num (Fin 2)]"
          "(=) Undefined" "Num (Fin 7)"]
  by (simp add: query_eq elems_Queryable_of)

subsection \<open>sum and average\<close>

text \<open>
  C6. \<open>average\<close> is \<open>sum\<close> divided by the length. On the empty sequence the sum is 0 and
  the division is \<open>0 / 0\<close>: the result is \<open>NaN\<close>, not the number 0.
\<close>

theorem C6_average:
  "average selector this h =
     js_div (sum_q selector this h) (Fin (real (length (elems h this)))) \<and>
   (elems h this = [] \<longrightarrow>
      sum_q selector this h = Fin 0 \<and> average selector this h = NaN \<and>
      average selector this h \<noteq> Fin 0)"
  by (simp add: average_def sum_q_def)

theorem C6_average_witness:
  "query [] (average the_number) = NaN \<and>
   query [Num (Fin 30), Num (Fin 25), Num (Fin 35), Num (Fin 28)] (sum_q the_number) = Fin 118 \<and>
   query [Num (Fin 30), Num (Fin 25), Num (Fin 35), Num (Fin 28)] (average the_number) = Fin (59 / 2)"
  using C6_average [of the_number "fst (Queryable_of [])" "snd (Queryable_of [])"]
    C6_average [of the_number "fst (Queryable_of [Num (Fin 30), Num (Fin 25), Num (Fin 35), Num (Fin 28)])"
       "snd (Queryable_of [Num (Fin 30), Num (Fin 25), Num (Fin 35), Num (Fin 28)])"]
  by (simp add: query_eq elems_Queryable_of sum_q_def)

subsection \<open>Sorting with a comparator\<close>

lemma mset_insert_by: "mset (insert_by c x ys) = add_mset x (mset ys)"
  by (induction ys) auto

lemma mset_sort_by: "mset (sort_by c xs) = mset xs"
  unfolding sort_by_def by (induction xs) (auto simp: mset_insert_by)

lemma set_insert_by: "set (insert_by c x ys) = insert x (set ys)"
  by (induction ys) auto

lemma sorted_insert_by:
  assumes total: "\<And>a b. c a b \<le> 0 \<or> c b a \<le> 0"
    and trans: "\<And>a b d. c a b \<le> 0 \<Longrightarrow> c b d \<le> 0 \<Longrightarrow> c a d \<le> 0"
  shows "sorted_wrt (\<lambda>a b. c a b \<le> 0) ys \<Longrightarrow> sorted_wrt (\<lambda>a b. c a b \<le> 0) (insert_by c x ys)"
proof (induction ys)
  case Nil
  then show ?case by simp
next
  case (Cons y ys)
  show ?case
  proof (cases "c x y \<le> 0")
    case True
    with Cons.prems show ?thesis using trans by auto
  next
    case False
    then have "c y x \<le> 0" using total by blast
    with False Cons show ?thesis by (auto simp: set_insert_by)
  qed
qed

lemma sorted_sort_by:
  assumes "\<And>a b. c a b \<le> 0 \<or> c b a \<le> 0"
    and "\<And>a b d. c a b \<le> 0 \<Longrightarrow> c b d \<le> 0 \<Longrightarrow> c a d \<le> 0"
  shows "sorted_wrt (\<lambda>a b. c a b \<le> 0) (sort_by c xs)"
  unfolding sort_by_def
  by (induction xs) (simp_all add: sorted_insert_by [OF assms])

lemma filter_insert_by:
  assumes "\<And>y. P x \<Longrightarrow> P y \<Longrightarrow> c x y \<le> 0"
  shows "filter P (insert_by c x ys) = (if P x then x # filter P ys else filter P ys)"
  using assms by (induction ys) auto

lemma filter_sort_by:
  assumes "\<And>x y. P x \<Longrightarrow> P y \<Longrightarrow> c x y \<le> 0"
  shows "filter P (sort_by c xs) = filter P xs"
  unfolding sort_by_def
  by (induction xs) (simp_all add: filter_insert_by assms)

lemma array_sort_defined: "Undefined \<notin> set xs \<Longrightarrow> array_sort c xs = sort_by c xs"
proof -
  assume a: "Undefined \<notin> set xs"
  then have "filter (\<lambda>x. x \<noteq> Undefined) xs = xs" "filter (\<lambda>x. x = Undefined) xs = []"
    by (auto simp: filter_empty_conv intro: filter_True)
  then show ?thesis by (simp add: array_sort_def)
qed

lemma result_elems_orderBy:
  "result_elems (orderBy k this h) =
     array_sort (\<lambda>a b. if k a < k b then - 1 else if k a > k b then 1 else 0) (elems h this)"
  by (simp add: orderBy_def new_array_def sort_in_place_def new_Queryable_def result_elems_def
      toArray_def collection_def elems_def Let_def)

lemma result_elems_orderByDescending:
  "result_elems (orderByDescending k this h) =
     array_sort (\<lambda>a b. if k a > k b then - 1 else if k a < k b then 1 else 0) (elems h this)"
  by (simp add: orderByDescending_def new_array_def sort_in_place_def new_Queryable_def
      result_elems_def toArray_def collection_def elems_def Let_def)

text \<open>Two lists in descending key order whose elements of each key are the same, in the
  same order, are the same list.\<close>

lemma sorted_desc_unique:
  fixes k :: "'a \<Rightarrow> 'k::linorder"
  assumes "sorted_wrt (\<lambda>a b. k b \<le> k a) ys" "sorted_wrt (\<lambda>a b. k b \<le> k a) zs"
    and "\<And>v. filter (\<lambda>x. k x = v) ys = filter (\<lambda>x. k x = v) zs"
  shows "ys = zs"
  using assms
proof (induction ys arbitrary: zs)
  case Nil
  show ?case
  proof (cases zs)
    case (Cons z zs')
    with Nil.prems(3) [of "k z"] show ?thesis by simp
  qed simp
next
  case (Cons y ys)
  have "y \<in> set (filter (\<lambda>x. k x = k y) (y # ys))" by simp
  then have "y \<in> set (filter (\<lambda>x. k x = k y) zs)" by (simp only: Cons.prems(3))
  then have "y \<in> set zs" by simp
  then obtain z zs' where zs: "zs = z # zs'" by (cases zs) auto
  have "z \<in> set (filter (\<lambda>x. k x = k z) zs)" using zs by simp
  then have "z \<in> set (filter (\<lambda>x. k x = k z) (y # ys))" by (simp only: Cons.prems(3))
  then have "z \<in> set (y # ys)" by (simp split: if_splits)
  with Cons.prems(1) have "k z \<le> k y" by auto
  moreover from \<open>y \<in> set zs\<close> zs Cons.prems(2) have "k y \<le> k z" by auto
  ultimately have keq: "k y = k z" by simp
  with Cons.prems(3) [of "k y"] zs have yz: "y = z" by simp
  have "filter (\<lambda>x. k x = v) ys = filter (\<lambda>x. k x = v) zs'" for v
    using Cons.prems(3) [of v] zs yz by (simp split: if_splits)
  moreover from Cons.prems zs have "sorted_wrt (\<lambda>a b. k b \<le> k a) ys" "sorted_wrt (\<lambda>a b. k b \<le> k a) zs'"
    by simp_all
  ultimately have "ys = zs'" by (rule Cons.IH [rotated 2])
  with yz zs show ?case by simp
qed

subsection \<open>orderBy and orderByDescending\<close>

text \<open>On a sequence without \<open>undefined\<close> elements \<open>orderBy\<close> returns a permutation of the
  source in ascending key order in which the elements of each key keep their order, and
  \<open>orderByDescending\<close> the same in descending key order.\<close>

lemma orderBy_sorted_stable:
  fixes k :: "jsval \<Rightarrow> 'k::linorder"
  assumes "Undefined \<notin> set (elems h this)"
  shows "mset (result_elems (orderBy k this h)) = mset (elems h this)"
    and "sorted (map k (result_elems (orderBy k this h)))"
    and "filter (\<lambda>x. k x = v) (result_elems (orderBy k this h)) = filter (\<lambda>x. k x = v) (elems h this)"
proof -
  let ?c = "\<lambda>a b. if k a < k b then - 1 else if k a > k b then 1 else (0::int)"
  have le: "?c a b \<le> 0 \<longleftrightarrow> k a \<le> k b" for a b by auto
  have r: "result_elems (orderBy k this h) = sort_by ?c (elems h this)"
    using assms by (simp add: result_elems_orderBy array_sort_defined)
  show "mset (result_elems (orderBy k this h)) = mset (elems h this)"
    by (simp only: r mset_sort_by)
  have "sorted_wrt (\<lambda>a b. ?c a b \<le> 0) (sort_by ?c (elems h this))"
    by (rule sorted_sort_by) (auto simp only: le)
  then show "sorted (map k (result_elems (orderBy k this h)))"
    by (simp only: r le sorted_map)
  show "filter (\<lambda>x. k x = v) (result_elems (orderBy k this h)) = filter (\<lambda>x. k x = v) (elems h this)"
    unfolding r by (rule filter_sort_by) auto
qed

lemma orderByDescending_sorted_stable:
  fixes k :: "jsval \<Rightarrow> 'k::linorder"
  assumes "Undefined \<notin> set (elems h this)"
  shows "mset (result_elems (orderByDescending k this h)) = mset (elems h this)"
    and "sorted_wrt (\<lambda>a b. k b \<le> k a) (result_elems (orderByDescending k this h))"
    and "filter (\<lambda>x. k x = v) (result_elems (orderByDescending k this h)) = filter (\<lambda>x. k x = v) (elems h this)"
proof -
  let ?c = "\<lambda>a b. if k a > k b then - 1 else if k a < k b then 1 else (0::int)"
  have le: "?c a b \<le> 0 \<longleftrightarrow> k b \<le> k a" for a b by auto
  have r: "result_elems (orderByDescending k this h) = sort_by ?c (elems h this)"
    using assms by (simp add: result_elems_orderByDescending array_sort_defined)
  show "mset (result_elems (orderByDescending k this h)) = mset (elems h this)"
    by (simp only: r mset_sort_by)
  have "sorted_wrt (\<lambda>a b. ?c a b \<le> 0) (sort_by ?c (elems h this))"
    by (rule sorted_sort_by) (auto simp only: le)
  then show "sorted_wrt (\<lambda>a b. k b \<le> k a) (result_elems (orderByDescending k this h))"
    by (simp only: r le)
  show "filter (\<lambda>x. k x = v) (result_elems (orderByDescending k this h)) = filter (\<lambda>x. k x = v) (elems h this)"
    unfolding r by (rule filter_sort_by) auto
qed

text \<open>
  C4. The claim is that \<open>orderBy\<close> returns, for every sequence and key selector, a
  permutation of the source sorted ascending by key, stably. The sort never shows an
  \<open>undefined\<close> element to the comparator and puts it last: on \<open>[undefined, 1]\<close> with a
  key selector that gives 0 for \<open>undefined\<close> and the number itself for a number, the
  result is \<open>[1, undefined]\<close>, whose keys 1, 0 are not ascending.
\<close>

theorem C4_orderBy_undefined_element:
  "result_elems (query [Undefined, Num (Fin 1)] (orderBy number_key)) = [Num (Fin 1), Undefined] \<and>
   map number_key (result_elems (query [Undefined, Num (Fin 1)] (orderBy number_key))) = [1, 0] \<and>
   \<not> sorted (map number_key (result_elems (query [Undefined, Num (Fin 1)] (orderBy number_key))))"
  by (simp add: query_eq result_elems_orderBy elems_Queryable_of array_sort_def sort_by_def)

text \<open>
  C3, as amended. For a sequence without \<open>undefined\<close> elements, \<open>orderByDescending\<close>
  returns a permutation of the source in descending key order, and the elements of each
  key keep their original order. The result is the reverse of the ascending \<open>orderBy\<close>
  result exactly when, for every key, the elements with that key read the same in both
  directions; so it differs from that reverse as soon as the elements of some key, in their
  original order, are not a palindrome.
\<close>

theorem C3_orderByDescending_stable:
  fixes k :: "jsval \<Rightarrow> 'k::linorder"
  assumes "Undefined \<notin> set (elems h this)"
  shows "mset (result_elems (orderByDescending k this h)) = mset (elems h this) \<and>
         sorted (rev (map k (result_elems (orderByDescending k this h)))) \<and>
         (\<forall>v. filter (\<lambda>x. k x = v) (result_elems (orderByDescending k this h)) =
              filter (\<lambda>x. k x = v) (elems h this)) \<and>
         (result_elems (orderByDescending k this h) = rev (result_elems (orderBy k this h)) \<longleftrightarrow>
            (\<forall>v. rev (filter (\<lambda>x. k x = v) (elems h this)) = filter (\<lambda>x. k x = v) (elems h this)))"
proof -
  let ?xs = "elems h this"
  let ?desc = "result_elems (orderByDescending k this h)"
  let ?asc = "result_elems (orderBy k this h)"
  note d = orderByDescending_sorted_stable [OF assms, of k]
  note a = orderBy_sorted_stable [OF assms, of k]
  have sd: "sorted (rev (map k ?desc))"
    using d(2) by (simp add: sorted_wrt_rev sorted_wrt_map)
  have ra: "sorted_wrt (\<lambda>a b. k b \<le> k a) (rev ?asc)"
    using a(2) by (simp add: sorted_wrt_rev sorted_map)
  have fa: "filter (\<lambda>x. k x = v) (rev ?asc) = rev (filter (\<lambda>x. k x = v) ?xs)" for v
    by (simp only: rev_filter [symmetric] a(3))
  have "?desc = rev ?asc" if "\<forall>v. rev (filter (\<lambda>x. k x = v) ?xs) = filter (\<lambda>x. k x = v) ?xs"
  proof (rule sorted_desc_unique [OF d(2) ra])
    fix v
    show "filter (\<lambda>x. k x = v) ?desc = filter (\<lambda>x. k x = v) (rev ?asc)"
      using that by (simp only: fa d(3))
  qed
  moreover have "rev (filter (\<lambda>x. k x = v) ?xs) = filter (\<lambda>x. k x = v) ?xs" if "?desc = rev ?asc" for v
    using fa [of v] d(3) [of v] that by simp
  ultimately show ?thesis using d(1) d(3) sd by blast
qed

text \<open>Tied keys do not make the two results differ: two equal numbers, and the objects
  \<open>a, b, a\<close> with one key, are sorted descending to the reverse of the ascending result.\<close>

theorem C3_tied_keys_counterexample:
  "result_elems (query [Num (Fin 1), Num (Fin 1)] (orderByDescending number_key)) =
     rev (result_elems (query [Num (Fin 1), Num (Fin 1)] (orderBy number_key))) \<and>
   result_elems (query [Ref 0, Ref 1, Ref 0] (orderByDescending k_field)) =
     rev (result_elems (query [Ref 0, Ref 1, Ref 0] (orderBy k_field))) \<and>
   k_field (Ref 0) = k_field (Ref 1) \<and> Ref 0 \<noteq> Ref 1"
  by (simp add: query_eq result_elems_orderBy result_elems_orderByDescending elems_Queryable_of
      array_sort_def sort_by_def)

theorem C3_orderByDescending_stable_witness:
  "Undefined \<notin> set [Ref 0, Ref 1, Ref 2] \<and>
   result_elems (query [Ref 0, Ref 1, Ref 2] (orderByDescending k_field)) = [Ref 0, Ref 1, Ref 2] \<and>
   result_elems (query [Ref 0, Ref 1, Ref 2] (orderBy k_field)) = [Ref 2, Ref 0, Ref 1] \<and>
   result_elems (query [Ref 0, Ref 1, Ref 2] (orderByDescending k_field)) \<noteq>
     rev (result_elems (query [Ref 0, Ref 1, Ref 2] (orderBy k_field)))"
  using C3_orderByDescending_stable [of "snd (Queryable_of [Ref 0, Ref 1, Ref 2])"
      "fst (Queryable_of [Ref 0, Ref 1, Ref 2])" k_field]
  by (simp add: query_eq result_elems_orderBy result_elems_orderByDescending elems_Queryable_of
      array_sort_def sort_by_def)

subsection \<open>groupBy\<close>

lemma set_prop_absent: "map_of gs g = None \<Longrightarrow> set_prop gs g v = gs @ [(g, v)]"
  by (induction gs) (auto split: if_splits)

lemma set_prop_last: "map_of gs g = None \<Longrightarrow> set_prop (gs @ [(g, w)]) g v = gs @ [(g, v)]"
  by (induction gs) (auto split: if_splits)

lemma map_of_set_prop: "map_of (set_prop gs g v) = (map_of gs)(g \<mapsto> v)"
  by (induction gs) auto

lemma keys_set_prop_present: "map_of gs g = Some w \<Longrightarrow> map fst (set_prop gs g v) = map fst gs"
  by (induction gs) (auto split: if_splits)

lemma mset_set_prop_present:
  "map_of gs g = Some items \<Longrightarrow>
   mset (concat (map snd (set_prop gs g (items @ [x])))) = add_mset x (mset (concat (map snd gs)))"
  by (induction gs) (auto split: if_splits)

lemma group_item_new:
  assumes "keySelector item \<notin> set Object_prototype" "map_of gs (keySelector item) = None"
  shows "group_item keySelector gs item = Inr (gs @ [(keySelector item, [item])])"
proof -
  let ?k = "keySelector item"
  have absent: "get_prop gs ?k = Absent"
    using assms by (simp add: get_prop_def)
  have own: "get_prop (gs @ [(?k, [])]) ?k = Own []"
    using assms(2) by (simp add: get_prop_def map_add_def)
  show ?thesis
    by (simp add: group_item_def Let_def absent own set_prop_absent [OF assms(2)]
        set_prop_last [OF assms(2)])
qed

lemma group_item_old:
  assumes "map_of gs (keySelector item) = Some items"
  shows "group_item keySelector gs item = Inr (set_prop gs (keySelector item) (items @ [item]))"
  using assms by (simp add: group_item_def get_prop_def Let_def)

lemma group_item_inherited:
  assumes "keySelector item \<in> set Object_prototype" "map_of gs (keySelector item) = None"
  shows "group_item keySelector gs item = Inl TypeError"
  using assms by (simp add: group_item_def get_prop_def Let_def)

lemma reduce_groups_partition:
  assumes "\<forall>x\<in>set xs. key x \<notin> set Object_prototype"
    and "distinct (map fst gs)"
    and "\<And>g. map_of gs g =
           (if g \<in> key ` set pre then Some (filter (\<lambda>x. key x = g) pre) else None)"
    and "mset (concat (map snd gs)) = mset pre"
  shows "\<exists>gs'. reduce_groups key gs xs = Inr gs' \<and> distinct (map fst gs') \<and>
           (\<forall>g. map_of gs' g =
              (if g \<in> key ` set (pre @ xs) then Some (filter (\<lambda>x. key x = g) (pre @ xs)) else None)) \<and>
           mset (concat (map snd gs')) = mset (pre @ xs)"
  using assms
proof (induction xs arbitrary: gs pre)
  case Nil
  then show ?case by simp
next
  case (Cons x xs)
  have good: "key x \<notin> set Object_prototype" using Cons.prems(1) by simp
  obtain gs1 where step: "group_item key gs x = Inr gs1"
    and d1: "distinct (map fst gs1)"
    and m1: "map_of gs1 = (map_of gs)(key x \<mapsto> filter (\<lambda>y. key y = key x) pre @ [x])"
    and c1: "mset (concat (map snd gs1)) = add_mset x (mset pre)"
  proof (cases "key x \<in> key ` set pre")
    case True
    then have old: "map_of gs (key x) = Some (filter (\<lambda>y. key y = key x) pre)"
      using Cons.prems(3) by simp
    show ?thesis
    proof (rule that)
      show "group_item key gs x = Inr (set_prop gs (key x) (filter (\<lambda>y. key y = key x) pre @ [x]))"
        by (rule group_item_old [where keySelector = key and item = x, OF old])
      show "distinct (map fst (set_prop gs (key x) (filter (\<lambda>y. key y = key x) pre @ [x])))"
        using Cons.prems(2) by (simp add: keys_set_prop_present [OF old])
      show "map_of (set_prop gs (key x) (filter (\<lambda>y. key y = key x) pre @ [x])) =
              (map_of gs)(key x \<mapsto> filter (\<lambda>y. key y = key x) pre @ [x])"
        by (rule map_of_set_prop)
      show "mset (concat (map snd (set_prop gs (key x) (filter (\<lambda>y. key y = key x) pre @ [x])))) =
              add_mset x (mset pre)"
        by (simp add: mset_set_prop_present [OF old] Cons.prems(4))
    qed
  next
    case False
    then have new: "map_of gs (key x) = None" using Cons.prems(3) by simp
    then have nk: "key x \<notin> fst ` set gs" by (simp add: map_of_eq_None_iff)
    from False have empty: "filter (\<lambda>y. key y = key x) pre = []"
      by (force simp: filter_empty_conv image_iff)
    show ?thesis
    proof (rule that)
      show "group_item key gs x = Inr (gs @ [(key x, [x])])"
        by (rule group_item_new [where keySelector = key and item = x, OF good new])
      show "distinct (map fst (gs @ [(key x, [x])]))"
        using Cons.prems(2) nk by simp
      show "map_of (gs @ [(key x, [x])]) = (map_of gs)(key x \<mapsto> filter (\<lambda>y. key y = key x) pre @ [x])"
        using new by (auto simp: empty map_add_def fun_eq_iff split: option.splits)
      show "mset (concat (map snd (gs @ [(key x, [x])]))) = add_mset x (mset pre)"
        by (simp add: Cons.prems(4))
    qed
  qed
  have "\<exists>gs'. reduce_groups key gs1 xs = Inr gs' \<and> distinct (map fst gs') \<and>
           (\<forall>g. map_of gs' g =
              (if g \<in> key ` set ((pre @ [x]) @ xs)
               then Some (filter (\<lambda>y. key y = g) ((pre @ [x]) @ xs)) else None)) \<and>
           mset (concat (map snd gs')) = mset ((pre @ [x]) @ xs)"
  proof (rule Cons.IH)
    show "\<forall>x\<in>set xs. key x \<notin> set Object_prototype" using Cons.prems(1) by simp
    show "distinct (map fst gs1)" by (rule d1)
    show "map_of gs1 g =
            (if g \<in> key ` set (pre @ [x]) then Some (filter (\<lambda>y. key y = g) (pre @ [x])) else None)" for g
      using Cons.prems(3) [of g] by (auto simp: m1)
    show "mset (concat (map snd gs1)) = mset (pre @ [x])" by (simp add: c1)
  qed
  moreover have "(pre @ [x]) @ xs = pre @ x # xs" by simp
  ultimately show ?case by (simp only: reduce_groups.simps step sum.case)
qed

text \<open>When no key is the name of a property of \<open>Object.prototype\<close>, the groups partition
  the source: each group holds exactly the elements of its key in source order, every
  element is in the group of its key, and all the groups together are a permutation of the
  source.\<close>

lemma groupBy_partition:
  assumes "\<forall>x\<in>set (elems h this). keySelector x \<notin> set Object_prototype"
  shows "\<exists>gs. groupBy keySelector this h = Inr gs \<and> distinct (map fst gs) \<and>
           (\<forall>(g, items)\<in>set gs.
              items = filter (\<lambda>x. keySelector x = g) (elems h this) \<and> items \<noteq> []) \<and>
           (\<forall>x\<in>set (elems h this).
              (keySelector x, filter (\<lambda>y. keySelector y = keySelector x) (elems h this)) \<in> set gs) \<and>
           mset (concat (map snd gs)) = mset (elems h this)"
proof -
  from reduce_groups_partition [OF assms, of "[]" "[]"]
  obtain gs where r: "reduce_groups keySelector [] (elems h this) = Inr gs"
    and d: "distinct (map fst gs)"
    and m: "\<And>g. map_of gs g =
              (if g \<in> keySelector ` set (elems h this)
               then Some (filter (\<lambda>x. keySelector x = g) (elems h this)) else None)"
    and c: "mset (concat (map snd gs)) = mset (elems h this)"
    by auto
  have "items = filter (\<lambda>x. keySelector x = g) (elems h this) \<and> items \<noteq> []"
    if "(g, items) \<in> set gs" for g items
  proof -
    from that d have "map_of gs g = Some items" by simp
    with m [of g] show ?thesis by (auto split: if_splits simp: filter_empty_conv)
  qed
  moreover have "(keySelector x, filter (\<lambda>y. keySelector y = keySelector x) (elems h this)) \<in> set gs"
    if "x \<in> set (elems h this)" for x
    using that m [of "keySelector x"] by (auto dest: map_of_SomeD)
  ultimately show ?thesis using r d c by (auto simp: groupBy_def)
qed

lemma groupBy_example:
  "query [Str ''Alice'', Str ''Bob'', Str ''Alice''] (groupBy string_key) =
     Inr [(''Alice'', [Str ''Alice'', Str ''Alice'']), (''Bob'', [Str ''Bob''])]"
  by (simp add: query_eq groupBy_def elems_Queryable_of group_item_def get_prop_def
      Object_prototype_def Let_def)

text \<open>
  C5. The claim is that \<open>groupBy\<close> produces, for every sequence and key selector, groups
  in which every element appears once, in the group of its key. For a key that names a
  property inherited from \<open>Object.prototype\<close> no group is created and the call throws:
  grouping \<open>['Alice', 'toString']\<close> or \<open>['constructor']\<close> by \<open>x => x\<close> ends in a
  \<open>TypeError\<close>.
\<close>

theorem C5_groupBy_inherited_key:
  "query [Str ''Alice'', Str ''toString''] (groupBy string_key) = Inl TypeError \<and>
   query [Str ''constructor''] (groupBy string_key) = Inl TypeError"
  by (simp add: query_eq groupBy_def elems_Queryable_of group_item_def get_prop_def
      Object_prototype_def Let_def)

subsection \<open>distinct\<close>

lemma key_not_seen_iff:
  "(\<forall>j<length xs. k (xs ! j) \<noteq> k x) \<longleftrightarrow> k x \<notin> k ` set xs"
proof
  assume a: "\<forall>j<length xs. k (xs ! j) \<noteq> k x"
  show "k x \<notin> k ` set xs"
  proof
    assume "k x \<in> k ` set xs"
    then obtain y where "y \<in> set xs" "k x = k y" by auto
    then obtain j where "j < length xs" "xs ! j = y" by (auto simp: in_set_conv_nth)
    with a \<open>k x = k y\<close> show False by auto
  qed
next
  assume b: "k x \<notin> k ` set xs"
  show "\<forall>j<length xs. k (xs ! j) \<noteq> k x"
  proof (intro allI impI)
    fix j assume "j < length xs"
    then have "xs ! j \<in> set xs" by simp
    show "k (xs ! j) \<noteq> k x"
    proof
      assume "k (xs ! j) = k x"
      then have "k x = k (xs ! j)" by simp
      then have "k x \<in> k ` set xs" using \<open>xs ! j \<in> set xs\<close> by (rule image_eqI)
      with b show False by simp
    qed
  qed
qed

lemma distinct_item_pair:
  "distinct_item ks (S, ys) x =
     (if distinct_key ks x \<in> S then (S, ys) else (insert (distinct_key ks x) S, ys @ [x]))"
  by (simp add: distinct_item_def Let_def)

lemma foldl_distinct_item:
  "foldl (distinct_item ks) ({}, []) xs =
     (distinct_key ks ` set xs,
      map ((!) xs) (filter (\<lambda>i. \<forall>j<i. distinct_key ks (xs ! j) \<noteq> distinct_key ks (xs ! i))
                      [0..<length xs]))"
proof (induction xs rule: rev_induct)
  case Nil
  show ?case by simp
next
  case (snoc x xs)
  let ?k = "distinct_key ks"
  let ?n = "length xs"
  let ?P = "\<lambda>zs i. \<forall>j<i. ?k (zs ! j) \<noteq> ?k (zs ! i)"
  have old: "filter (?P (xs @ [x])) [0..<?n] = filter (?P xs) [0..<?n]"
    by (rule filter_cong) (auto simp: nth_append)
  have vals: "map ((!) (xs @ [x])) (filter (?P xs) [0..<?n]) = map ((!) xs) (filter (?P xs) [0..<?n])"
    by (rule map_cong) (auto simp: nth_append)
  have "(\<forall>j<?n. ?k (xs ! j) \<noteq> ?k x) \<longleftrightarrow> ?k x \<notin> ?k ` set xs"
    by (rule key_not_seen_iff)
  then have last: "?P (xs @ [x]) ?n \<longleftrightarrow> ?k x \<notin> ?k ` set xs"
    by (simp add: nth_append)
  show ?case
  proof (cases "?k x \<in> ?k ` set xs")
    case True
    then have "\<not> ?P (xs @ [x]) ?n" using last by blast
    then have "filter (?P (xs @ [x])) [0..<length (xs @ [x])] = filter (?P xs) [0..<?n]"
      using old by simp
    then have "map ((!) (xs @ [x])) (filter (?P (xs @ [x])) [0..<length (xs @ [x])]) =
                 map ((!) xs) (filter (?P xs) [0..<?n])"
      using vals by simp
    moreover have "foldl (distinct_item ks) ({}, []) (xs @ [x]) =
                     (?k ` set xs, map ((!) xs) (filter (?P xs) [0..<?n]))"
      using True by (simp add: snoc.IH distinct_item_pair)
    moreover have "?k ` set (xs @ [x]) = ?k ` set xs" using True by auto
    ultimately show ?thesis by (simp only:)
  next
    case False
    then have "?P (xs @ [x]) ?n" using last by blast
    then have "filter (?P (xs @ [x])) [0..<length (xs @ [x])] = filter (?P xs) [0..<?n] @ [?n]"
      using old by simp
    then have "map ((!) (xs @ [x])) (filter (?P (xs @ [x])) [0..<length (xs @ [x])]) =
                 map ((!) xs) (filter (?P xs) [0..<?n]) @ [x]"
      using vals by simp
    moreover have "foldl (distinct_item ks) ({}, []) (xs @ [x]) =
                     (insert (?k x) (?k ` set xs), map ((!) xs) (filter (?P xs) [0..<?n]) @ [x])"
      using False by (simp add: snoc.IH distinct_item_pair)
    moreover have "?k ` set (xs @ [x]) = insert (?k x) (?k ` set xs)" by auto
    ultimately show ?thesis by (simp only:)
  qed
qed

lemma result_elems_distinct:
  "result_elems (distinct_q ks this h) = snd (foldl (distinct_item ks) ({}, []) (elems h this))"
  by (simp add: distinct_q_def result_elems_wrap split: prod.splits)

text \<open>
  C8. \<open>distinct\<close> returns the elements at the positions where a key occurs for the first
  time, in their original order: position \<open>i\<close> is kept exactly when no earlier position
  has the same key. The key of an element is the value the key selector \<open>f\<close> returns for
  it, and the element itself when no key selector is given. On \<open>[1, 2, 2, 3, 1]\<close> with
  the element as its own key the result is \<open>[1, 2, 3]\<close>; on \<open>['a', 'b', 'a', 'c']\<close> with the
  key \<open>x => x === 'a'\<close> it is \<open>['a', 'b']\<close>.
\<close>

theorem C8_distinct_keeps_first_occurrences:
  "result_elems (distinct_q (Some f) this h) =
     map ((!) (elems h this))
       (filter (\<lambda>i. \<forall>j<i. f (elems h this ! j) \<noteq> f (elems h this ! i))
          [0..<length (elems h this)]) \<and>
   result_elems (distinct_q None this h) =
     map ((!) (elems h this))
       (filter (\<lambda>i. \<forall>j<i. elems h this ! j \<noteq> elems h this ! i)
          [0..<length (elems h this)])"
  by (simp add: result_elems_distinct foldl_distinct_item distinct_key_def)

theorem C8_distinct_keeps_first_occurrences_witness:
  "result_elems (query [Num (Fin 1), Num (Fin 2), Num (Fin 2), Num (Fin 3), Num (Fin 1)]
      (distinct_q None)) = [Num (Fin 1), Num (Fin 2), Num (Fin 3)] \<and>
   map ((!) [Num (Fin 1), Num (Fin 2), Num (Fin 2), Num (Fin 3), Num (Fin 1)])
     (filter (\<lambda>i. \<forall>j<i. [Num (Fin 1), Num (Fin 2), Num (Fin 2), Num (Fin 3), Num (Fin 1)] ! j \<noteq>
                         [Num (Fin 1), Num (Fin 2), Num (Fin 2), Num (Fin 3), Num (Fin 1)] ! i)
        [0..<length [Num (Fin 1), Num (Fin 2), Num (Fin 2), Num (Fin 3), Num (Fin 1)]]) =
     [Num (Fin 1), Num (Fin 2), Num (Fin 3)] \<and>
   result_elems (query [Str ''a'', Str ''b'', Str ''a'', Str ''c'']
      (distinct_q (Some is_a))) = [Str ''a'', Str ''b''] \<and>
   map ((!) [Str ''a'', Str ''b'', Str ''a'', Str ''c''])
     (filter (\<lambda>i. \<forall>j<i. is_a ([Str ''a'', Str ''b'', Str ''a'', Str ''c''] ! j) \<noteq>
                         is_a ([Str ''a'', Str ''b'', Str ''a'', Str ''c''] ! i))
        [0..<length [Str ''a'', Str ''b'', Str ''a'', Str ''c'']]) =
     [Str ''a'', Str ''b'']"
proof -
  let ?xs = "[Num (Fin 1), Num (Fin 2), Num (Fin 2), Num (Fin 3), Num (Fin 1)]"
  let ?ys = "[Str ''a'', Str ''b'', Str ''a'', Str ''c'']"
  have e1: "result_elems (distinct_q None (fst (Queryable_of ?xs)) (snd (Queryable_of ?xs))) =
             [Num (Fin 1), Num (Fin 2), Num (Fin 3)]"
    by (simp add: result_elems_distinct elems_Queryable_of distinct_item_pair distinct_key_def)
  have e2: "result_elems (distinct_q (Some is_a) (fst (Queryable_of ?ys)) (snd (Queryable_of ?ys))) =
             [Str ''a'', Str ''b'']"
    by (simp add: result_elems_distinct elems_Queryable_of distinct_item_pair distinct_key_def
        is_a_def)
  from C8_distinct_keeps_first_occurrences
         [of is_a "fst (Queryable_of ?xs)" "snd (Queryable_of ?xs)"]
  have "result_elems (distinct_q None (fst (Queryable_of ?xs)) (snd (Queryable_of ?xs))) =
          map ((!) ?xs) (filter (\<lambda>i. \<forall>j<i. ?xs ! j \<noteq> ?xs ! i) [0..<length ?xs])"
    by (simp only: elems_Queryable_of)
  from this [symmetric] e1
  have s1: "map ((!) ?xs) (filter (\<lambda>i. \<forall>j<i. ?xs ! j \<noteq> ?xs ! i) [0..<length ?xs]) =
              [Num (Fin 1), Num (Fin 2), Num (Fin 3)]"
    by (rule trans)
  from C8_distinct_keeps_first_occurrences
         [of is_a "fst (Queryable_of ?ys)" "snd (Queryable_of ?ys)"]
  have "result_elems (distinct_q (Some is_a) (fst (Queryable_of ?ys)) (snd (Queryable_of ?ys))) =
          map ((!) ?ys) (filter (\<lambda>i. \<forall>j<i. is_a (?ys ! j) \<noteq> is_a (?ys ! i)) [0..<length ?ys])"
    by (simp only: elems_Queryable_of)
  from this [symmetric] e2
  have s2: "map ((!) ?ys) (filter (\<lambda>i. \<forall>j<i. is_a (?ys ! j) \<noteq> is_a (?ys ! i)) [0..<length ?ys]) =
              [Str ''a'', Str ''b'']"
    by (rule trans)
  from e1 e2 s1 s2 show ?thesis by (simp only: query_eq simp_thms)
qed

subsection \<open>The source wrapper is not mutated\<close>

lemma wrap_unchanged_and_fresh:
  "allocated h this \<Longrightarrow>
   unchanged_and_fresh this h (case new_array xs h of (a, h1) \<Rightarrow> new_Queryable a h1)"
  by (simp add: allocated_def unchanged_and_fresh_def new_array_def new_Queryable_def
      toArray_def collection_def)

lemma sort_copy_unchanged_and_fresh:
  "allocated h this \<Longrightarrow>
   unchanged_and_fresh this h
     (case new_array xs h of
        (c, h1) \<Rightarrow> case sort_in_place comparefn c h1 of (s, h2) \<Rightarrow> new_Queryable s h2)"
  by (simp add: allocated_def unchanged_and_fresh_def new_array_def new_Queryable_def
      sort_in_place_def toArray_def collection_def)

lemma unchanged_elems: "unchanged_and_fresh this h r \<Longrightarrow> elems (snd r) this = elems h this"
  by (cases r) (auto simp: unchanged_and_fresh_def elems_def toArray_def)

text \<open>
  C7. After \<open>select\<close>, \<open>where\<close>, \<open>orderBy\<close>, \<open>orderByDescending\<close>, \<open>distinct\<close>, \<open>take\<close> or
  \<open>skip\<close> on a wrapper, \<open>toArray()\<close> of that wrapper is the same array with the same
  elements in the same order (no object allocated before the call has changed), and the
  operator has returned a new wrapper over a new array.
\<close>

theorem C7_operators_leave_source_unchanged:
  fixes keyA :: "jsval \<Rightarrow> 'a::linorder" and keyD :: "jsval \<Rightarrow> 'b::linorder"
  assumes "allocated h this"
  shows "unchanged_and_fresh this h (select selector this h) \<and>
         unchanged_and_fresh this h (where_q predicate this h) \<and>
         unchanged_and_fresh this h (orderBy keyA this h) \<and>
         unchanged_and_fresh this h (orderByDescending keyD this h) \<and>
         unchanged_and_fresh this h (distinct_q keySelector this h) \<and>
         unchanged_and_fresh this h (take_q n this h) \<and>
         unchanged_and_fresh this h (skip n this h)"
proof -
  have "unchanged_and_fresh this h (distinct_q keySelector this h)"
    using wrap_unchanged_and_fresh [OF assms]
    by (simp add: distinct_q_def split: prod.splits)
  moreover have "unchanged_and_fresh this h (orderBy keyA this h)"
    unfolding orderBy_def Let_def by (rule sort_copy_unchanged_and_fresh [OF assms])
  moreover have "unchanged_and_fresh this h (orderByDescending keyD this h)"
    unfolding orderByDescending_def Let_def by (rule sort_copy_unchanged_and_fresh [OF assms])
  ultimately show ?thesis
    using wrap_unchanged_and_fresh [OF assms]
    by (simp add: select_def where_q_def take_q_def skip_def)
qed

theorem C7_operators_leave_source_unchanged_witness:
  "allocated (snd (Queryable_of [Num (Fin 3), Num (Fin 1), Num (Fin 2)]))
     (fst (Queryable_of [Num (Fin 3), Num (Fin 1), Num (Fin 2)])) \<and>
   unchanged_and_fresh (fst (Queryable_of [Num (Fin 3), Num (Fin 1), Num (Fin 2)]))
     (snd (Queryable_of [Num (Fin 3), Num (Fin 1), Num (Fin 2)]))
     (orderBy number_key (fst (Queryable_of [Num (Fin 3), Num (Fin 1), Num (Fin 2)]))
        (snd (Queryable_of [Num (Fin 3), Num (Fin 1), Num (Fin 2)]))) \<and>
   elems (snd (orderBy number_key (fst (Queryable_of [Num (Fin 3), Num (Fin 1), Num (Fin 2)]))
                 (snd (Queryable_of [Num (Fin 3), Num (Fin 1), Num (Fin 2)]))))
     (fst (Queryable_of [Num (Fin 3), Num (Fin 1), Num (Fin 2)])) =
     [Num (Fin 3), Num (Fin 1), Num (Fin 2)]"
proof -
  let ?q = "fst (Queryable_of [Num (Fin 3), Num (Fin 1), Num (Fin 2)])"
  let ?h = "snd (Queryable_of [Num (Fin 3), Num (Fin 1), Num (Fin 2)])"
  have a: "allocated ?h ?q" by (rule allocated_Queryable_of)
  from C7_operators_leave_source_unchanged [OF a, where keyA = number_key and keyD = number_key]
  have u: "unchanged_and_fresh ?q ?h (orderBy number_key ?q ?h)" by blast
  then have "elems (snd (orderBy number_key ?q ?h)) ?q = elems ?h ?q"
    by (rule unchanged_elems)
  with a u show ?thesis by (simp only: elems_Queryable_of simp_thms)
qed

end
